theory Spec2Isabelle
  imports Main "HOL-Library.Word" "HOL-Library.Finite_Map"
begin

unbundle bit_operations_syntax

section \<open>The health-check core of package doctor\<close>

subsection \<open>Data\<close>

text \<open>
  A Go \<^verbatim>\<open>error\<close> is \<open>None\<close> for \<^verbatim>\<open>nil\<close> and \<open>Some t\<close> for an error whose
  \<^verbatim>\<open>Error()\<close> text is \<open>t\<close>.
\<close>

type_synonym error = "string option"

text \<open>
  What one invocation of a check's \<^verbatim>\<open>Handler\<close> does: it returns an error value, it
  panics with a value, or it never returns control. The handler is code of the caller;
  the model reads its behaviour in the \<open>k\<close>-th cycle from the function stored in the
  check.
\<close>

datatype outcome = Returns error | Panics string | Hangs

text \<open>
  \<^verbatim>\<open>Check\<close>. Durations are \<^verbatim>\<open>time.Duration\<close> values (signed nanoseconds). The
  \<^verbatim>\<open>Aspect\<close> is optional (\<^verbatim>\<open>nil\<close> is \<open>None\<close>); the source passes it the check itself,
  which here is the triple of the check's data fields (name, interval, timeout).
\<close>

record Check =
  Name :: string
  Handler :: "nat \<Rightarrow> outcome"
  Interval :: int
  Timeout :: int
  Aspect :: "(string \<times> int \<times> int \<Rightarrow> error \<Rightarrow> error) option"

text \<open>\<^verbatim>\<open>healthCheckStatus\<close>: the check with its mutable state and its bit position.\<close>

record healthCheckStatus =
  Check :: Check
  healthy :: bool
  msg :: string
  pos :: nat

text \<open>
  The goroutine running \<^verbatim>\<open>start\<close> for one check. It is at the head of the loop about
  to call \<^verbatim>\<open>check()\<close>, blocked in cycle \<open>k\<close> on \<^verbatim>\<open><-subctx.Done()\<close>, blocked in the
  \<^verbatim>\<open>select\<close> between \<^verbatim>\<open>ctx.Done()\<close> and \<^verbatim>\<open>time.After(hc.Interval)\<close>, or it has
  returned. \<open>cycles\<close> counts the calls of \<^verbatim>\<open>check()\<close> so far, \<open>pending\<close> holds the
  cycles whose handler goroutine has not finished, \<open>cancelled\<close> says that the \<^verbatim>\<open>ctx\<close>
  given to \<^verbatim>\<open>Investigate\<close> is done.
\<close>

datatype phase = LoopHead | AwaitDone nat | InSelect | Exited

record runner =
  phase :: phase
  cycles :: nat
  pending :: "nat list"
  cancelled :: bool

text \<open>
  \<^verbatim>\<open>Doctor\<close>. \<open>items\<close> is \<^verbatim>\<open>checks.items\<close>, a map from names to pointers; \<open>heap\<close> holds
  the \<^verbatim>\<open>healthCheckStatus\<close> objects those pointers reach (a pointer is an index, a new
  object is appended); \<open>status\<close> is \<^verbatim>\<open>status.status\<close>, a \<^verbatim>\<open>uint64\<close>; \<open>runners ! a\<close>
  is the goroutine that \<^verbatim>\<open>Investigate\<close> started for the object at \<open>a\<close>.
\<close>

record Doctor =
  items :: "(string, nat) fmap"
  heap :: "healthCheckStatus list"
  status :: "64 word"
  runners :: "runner list"

definition NewDoctor :: Doctor where
  "NewDoctor = \<lparr>items = fmempty, heap = [], status = 0, runners = []\<rparr>"

subsection \<open>The aggregator\<close>

text \<open>
  \<^verbatim>\<open>update\<close>: \<^verbatim>\<open>c.status |= (1 << pos)\<close> when the value is false,
  \<^verbatim>\<open>c.status &= ^(1 << pos)\<close> otherwise. The shift is a \<^verbatim>\<open>uint64\<close> shift: a count of
  64 or more gives 0, as \<open>push_bit\<close> on \<open>64 word\<close> does.
\<close>

definition update :: "64 word \<Rightarrow> nat \<Rightarrow> bool \<Rightarrow> 64 word" where
  "update st p v = (if \<not> v then st OR push_bit p 1 else st AND NOT (push_bit p 1))"

definition Healthy :: "Doctor \<Rightarrow> bool" where
  "Healthy d = (status d = 0)"

subsection \<open>Registration\<close>

text \<open>The number of entries of the registry, \<^verbatim>\<open>len(health.checks.items)\<close>.\<close>

definition len_items :: "Doctor \<Rightarrow> nat" where
  "len_items d = fcard (fmdom (items d))"

definition spawned :: runner where
  "spawned = \<lparr>phase = LoopHead, cycles = 0, pending = [], cancelled = False\<rparr>"

text \<open>
  \<^verbatim>\<open>Investigate\<close>, under the registry's lock from entry to return. It returns its error
  and the state it leaves.
\<close>

definition Investigate :: "Doctor \<Rightarrow> Check \<Rightarrow> error \<times> Doctor" where
  "Investigate d c =
     (let p = len_items d in
      if p < 63 then
        (None,
         d\<lparr>items := fmupd (Name c) (length (heap d)) (items d),
           heap := heap d @ [\<lparr>Check = c, healthy = False, msg = ''[n/a]'', pos = p\<rparr>],
           status := update (status d) p False,
           runners := runners d @ [spawned]\<rparr>)
      else (Some ''health-check treshold (64) exceeded'', d))"

subsection \<open>The Runner\<close>

text \<open>
  The optional transform of the handler's result,
  \<^verbatim>\<open>if hc.Aspect != nil { err = hc.Aspect(hc.Check, err) }\<close>.
\<close>

definition apply_aspect :: "Check \<Rightarrow> error \<Rightarrow> error" where
  "apply_aspect c err =
     (case Aspect c of None \<Rightarrow> err | Some f \<Rightarrow> f (Name c, Interval c, Timeout c) err)"

text \<open>
  The recording part of the handler goroutine of \<^verbatim>\<open>start\<close>, under the check's lock:
  \<open>a\<close> is the pointer \<^verbatim>\<open>hc\<close>, \<open>err\<close> the error after the aspect.
\<close>

definition start_record :: "Doctor \<Rightarrow> nat \<Rightarrow> error \<Rightarrow> Doctor" where
  "start_record d a err =
     (let hc = heap d ! a in
      case err of
        None \<Rightarrow>
          d\<lparr>status := update (status d) (pos hc) True,
            heap := (heap d)[a := hc\<lparr>healthy := True, msg := []\<rparr>]\<rparr>
      | Some t \<Rightarrow>
          d\<lparr>status := update (status d) (pos hc) False,
            heap := (heap d)[a := hc\<lparr>healthy := False, msg := t\<rparr>]\<rparr>)"

text \<open>
  What can happen next in the process. \<open>Register c\<close>: a caller runs
  \<^verbatim>\<open>Investigate\<close>. \<open>CycleStart a\<close>: the Runner of \<open>a\<close> calls \<^verbatim>\<open>check()\<close>, which
  derives \<^verbatim>\<open>subctx\<close>, starts the handler goroutine and blocks on
  \<^verbatim>\<open><-subctx.Done()\<close>. \<open>HandlerDone a k\<close>: the handler called in cycle \<open>k\<close> stops
  running. \<open>TimeoutExpires a\<close>: the deadline of the current \<^verbatim>\<open>subctx\<close> passes.
  \<open>IntervalElapsed a\<close>: \<^verbatim>\<open>time.After(hc.Interval)\<close> fires in the \<^verbatim>\<open>select\<close>.
  \<open>Cancel a\<close>: the \<^verbatim>\<open>ctx\<close> of the check is cancelled. \<open>ObserveCancel a\<close>: the
  \<^verbatim>\<open>select\<close> takes \<^verbatim>\<open>ctx.Done()\<close>.
\<close>

datatype event =
    Register Check
  | CycleStart nat
  | HandlerDone nat nat
  | TimeoutExpires nat
  | IntervalElapsed nat
  | Cancel nat
  | ObserveCancel nat

text \<open>A panic that no goroutine recovers ends the process.\<close>

datatype crash = Panic string

definition set_runner :: "Doctor \<Rightarrow> nat \<Rightarrow> runner \<Rightarrow> Doctor" where
  "set_runner d a r = d\<lparr>runners := (runners d)[a := r]\<rparr>"

text \<open>
  The handler goroutine of cycle \<open>k\<close> from the return of \<^verbatim>\<open>hc.Handler(subctx)\<close> on:
  the aspect, the record under the lock, then the deferred \<^verbatim>\<open>cancel()\<close>, which closes
  \<^verbatim>\<open>subctx.Done()\<close> of cycle \<open>k\<close> and so releases the Runner if it still waits on that
  cycle. The goroutine has no \<^verbatim>\<open>recover\<close>: a panic of the handler leaves it as a panic.
\<close>

definition handler_goroutine :: "Doctor \<Rightarrow> nat \<Rightarrow> nat \<Rightarrow> crash + Doctor" where
  "handler_goroutine d a k =
     (let hc = heap d ! a; r = runners d ! a in
      case Handler (Check hc) k of
        Hangs \<Rightarrow> Inr d
      | Panics v \<Rightarrow> Inl (Panic v)
      | Returns err \<Rightarrow>
          (let d' = start_record d a (apply_aspect (Check hc) err) in
           Inr (set_runner d' a
                  (r\<lparr>pending := removeAll k (pending r),
                     phase := (if phase r = AwaitDone k then InSelect else phase r)\<rparr>))))"

text \<open>
  One step of the process. An event that is not possible in the state (no such
  goroutine, or the goroutine is elsewhere) leaves the state as it is.
\<close>

fun step :: "Doctor \<Rightarrow> event \<Rightarrow> crash + Doctor" where
  "step d (Register c) = Inr (snd (Investigate d c))"
| "step d (CycleStart a) =
     (if a < length (runners d) \<and> phase (runners d ! a) = LoopHead then
        (let r = runners d ! a in
         Inr (set_runner d a
                (r\<lparr>phase := (if cancelled r then InSelect else AwaitDone (cycles r)),
                   cycles := Suc (cycles r),
                   pending := pending r @ [cycles r]\<rparr>)))
      else Inr d)"
| "step d (HandlerDone a k) =
     (if a < length (runners d) \<and> k \<in> set (pending (runners d ! a)) then handler_goroutine d a k
      else Inr d)"
| "step d (TimeoutExpires a) =
     (if a < length (runners d) then
        (case phase (runners d ! a) of
           AwaitDone k \<Rightarrow> Inr (set_runner d a ((runners d ! a)\<lparr>phase := InSelect\<rparr>))
         | _ \<Rightarrow> Inr d)
      else Inr d)"
| "step d (IntervalElapsed a) =
     (if a < length (runners d) \<and> phase (runners d ! a) = InSelect then
        Inr (set_runner d a ((runners d ! a)\<lparr>phase := LoopHead\<rparr>))
      else Inr d)"
| "step d (Cancel a) =
     (if a < length (runners d) then
        (let r = runners d ! a in
         Inr (set_runner d a
                (r\<lparr>cancelled := True,
                   phase := (case phase r of AwaitDone k \<Rightarrow> InSelect | ph \<Rightarrow> ph)\<rparr>)))
      else Inr d)"
| "step d (ObserveCancel a) =
     (if a < length (runners d) \<and> phase (runners d ! a) = InSelect \<and> cancelled (runners d ! a) then
        Inr (set_runner d a ((runners d ! a)\<lparr>phase := Exited\<rparr>))
      else Inr d)"

text \<open>A run of the process: the events in order, stopping at a crash.\<close>

fun run :: "Doctor \<Rightarrow> event list \<Rightarrow> crash + Doctor" where
  "run d [] = Inr d"
| "run d (e # es) = (case step d e of Inl c \<Rightarrow> Inl c | Inr d' \<Rightarrow> run d' es)"

subsection \<open>The failure snapshot\<close>

text \<open>
  \<^verbatim>\<open>failing\<close>: \<^verbatim>\<open>errors := make(map[string]string)\<close>, then the loop over
  \<^verbatim>\<open>checks.items\<close>. Go leaves the order of a \<^verbatim>\<open>range\<close> over a map open, so the
  entries come as a list \<open>es\<close> in the order the loop meets them.
\<close>

fun failing_loop ::
  "healthCheckStatus list \<Rightarrow> (string \<times> nat) list \<Rightarrow> (string, string) fmap \<Rightarrow> (string, string) fmap"
where
  "failing_loop hp [] errors = errors"
| "failing_loop hp ((name, a) # es) errors =
     failing_loop hp es
       (if length (msg (hp ! a)) > 0 then fmupd name (msg (hp ! a)) errors else errors)"

definition failing :: "Doctor \<Rightarrow> (string \<times> nat) list \<Rightarrow> (string, string) fmap" where
  "failing d es = failing_loop (heap d) es fmempty"

text \<open>\<open>es\<close> is an order in which a \<^verbatim>\<open>range\<close> can meet the entries of the map \<open>m\<close>.\<close>

definition range_of :: "(string, nat) fmap \<Rightarrow> (string \<times> nat) list \<Rightarrow> bool" where
  "range_of m es \<longleftrightarrow> distinct (map fst es) \<and> fmap_of_list es = m"

text \<open>A caller registering the checks \<open>cs\<close> one after the other, keeping each error.\<close>

fun Investigate_all :: "Doctor \<Rightarrow> Check list \<Rightarrow> error list \<times> Doctor" where
  "Investigate_all d [] = ([], d)"
| "Investigate_all d (c # cs) =
     (case Investigate d c of (e, d') \<Rightarrow>
        (case Investigate_all d' cs of (es, d'') \<Rightarrow> (e # es, d'')))"

subsection \<open>Example checks\<close>

text \<open>A check with the given name and handler behaviour, and no aspect.\<close>

definition probe :: "string \<Rightarrow> (nat \<Rightarrow> outcome) \<Rightarrow> Check" where
  "probe n h = \<lparr>Name = n, Handler = h, Interval = 1000, Timeout = 100, Aspect = None\<rparr>"


definition always :: "outcome \<Rightarrow> nat \<Rightarrow> outcome" where
  "always r k = r"

text \<open>An aspect that turns every result into success.\<close>

definition forgiving :: "string \<times> int \<times> int \<Rightarrow> error \<Rightarrow> error" where
  "forgiving c err = None"

text \<open>An aspect that puts the name of the check before the text of an error.\<close>

definition tagging :: "string \<times> int \<times> int \<Rightarrow> error \<Rightarrow> error" where
  "tagging c err = (case err of None \<Rightarrow> None | Some t \<Rightarrow> Some (fst c @ '': '' @ t))"

text \<open>An aspect that turns success into an error that quotes the timeout, and keeps errors.\<close>

definition strict :: "string \<times> int \<times> int \<Rightarrow> error \<Rightarrow> error" where
  "strict c err =
     (case err of
        None \<Rightarrow> Some (if snd (snd c) = 100 then ''unverified (100)'' else ''unverified'')
      | Some t \<Rightarrow> Some t)"

text \<open>Checks with pairwise different names: \<open>c\<close>, \<open>cc\<close>, \<open>ccc\<close>, ...\<close>

definition numbered :: "nat \<Rightarrow> Check" where
  "numbered i = probe (replicate (Suc i) CHR ''c'') (always (Returns None))"

text \<open>The events of one full cycle \<open>k\<close> of the Runner of \<open>a\<close> whose handler returns in time.\<close>

definition cycle :: "nat \<Rightarrow> nat \<Rightarrow> event list" where
  "cycle a k = [CycleStart a, HandlerDone a k, IntervalElapsed a]"

subsection \<open>Example states\<close>


text \<open>A Doctor with one registered check, and one with two, before any cycle.\<close>

definition one_check :: Doctor where
  "one_check = snd (Investigate NewDoctor (probe ''db'' (always (Returns None))))"

definition two_checks :: Doctor where
  "two_checks = snd (Investigate one_check (probe ''cache'' (always (Returns None))))"

text \<open>The Doctor with two checks after a cycle of \<open>db\<close> that ended with success.\<close>

definition db_succeeded :: Doctor where
  "db_succeeded = projr (run two_checks [CycleStart 0, HandlerDone 0 0])"

text \<open>
  A check failing with \<open>down\<close> in every cycle, alone in a Doctor, its Runner waiting for
  the handler of the first cycle; and the same with the forgiving aspect.
\<close>

definition down_waiting :: Doctor where
  "down_waiting =
     projr (run NewDoctor [Register (probe ''db'' (always (Returns (Some ''down'')))), CycleStart 0])"

definition forgiven_waiting :: Doctor where
  "forgiven_waiting =
     projr (run NewDoctor
       [Register ((probe ''db'' (always (Returns (Some ''down''))))\<lparr>Aspect := Some forgiving\<rparr>),
        CycleStart 0])"

definition tagged_waiting :: Doctor where
  "tagged_waiting =
     projr (run NewDoctor
       [Register ((probe ''db'' (always (Returns (Some ''down''))))\<lparr>Aspect := Some tagging\<rparr>),
        CycleStart 0])"

text \<open>A succeeding check with the strict aspect, its Runner waiting in the first cycle.\<close>

definition strict_waiting :: Doctor where
  "strict_waiting =
     projr (run NewDoctor
       [Register ((probe ''db'' (always (Returns None)))\<lparr>Aspect := Some strict\<rparr>),
        CycleStart 0])"

text \<open>
  Two registrations under the name \<open>db\<close>, then one of \<open>cache\<close>; and the run in which
  then both checks named \<open>db\<close> complete a cycle with success while the Runner of
  \<open>cache\<close> has not started its first.
\<close>

definition db_db_cache :: "Check list" where
  "db_db_cache =
     [probe ''db'' (always (Returns None)), probe ''db'' (always (Returns None)),
      probe ''cache'' (always (Returns None))]"


text \<open>The same for a handler that panics.\<close>

definition panic_waiting :: Doctor where
  "panic_waiting =
     projr (run NewDoctor [Register (probe ''db'' (always (Panics ''nil map''))), CycleStart 0])"

subsection \<open>Invariant\<close>

text \<open>
  Every object has its goroutine, and every position is one that \<^verbatim>\<open>Investigate\<close> lets
  through.
\<close>

definition wf :: "Doctor \<Rightarrow> bool" where
  "wf d \<longleftrightarrow> length (runners d) = length (heap d) \<and> list_all (\<lambda>hc. pos hc < 63) (heap d)"

text \<open>The names under which the events of a run call \<^verbatim>\<open>Investigate\<close>, in order.\<close>

fun registered :: "event list \<Rightarrow> string list" where
  "registered [] = []"
| "registered (Register c # es) = Name c # registered es"
| "registered (e # es) = registered es"

text \<open>
  The positions are the indices of the objects, and the registry has one entry for each
  object.
\<close>

definition dense :: "Doctor \<Rightarrow> bool" where
  "dense d \<longleftrightarrow>
     length (runners d) = length (heap d) \<and> map pos (heap d) = [0 ..< length (heap d)] \<and>
     len_items d = length (heap d)"

section \<open>Properties\<close>

subsection \<open>Basic facts\<close>

lemma start_record_heap_other:
  "b \<noteq> a \<Longrightarrow> heap (start_record d a err) ! b = heap d ! b"
  by (simp add: start_record_def Let_def split: option.splits)

lemma items_start_record [simp]: "items (start_record d a err) = items d"
  by (simp add: start_record_def Let_def split: option.splits)

lemma runners_start_record [simp]: "runners (start_record d a err) = runners d"
  by (simp add: start_record_def Let_def split: option.splits)

lemma length_heap_start_record [simp]: "length (heap (start_record d a err)) = length (heap d)"
  by (simp add: start_record_def Let_def split: option.splits)

lemma status_start_record:
  "status (start_record d a err) = update (status d) (pos (heap d ! a)) (err = None)"
  by (simp add: start_record_def Let_def split: option.splits)

lemma heap_start_record_same:
  "a < length (heap d) \<Longrightarrow>
   heap (start_record d a err) ! a =
     (heap d ! a)\<lparr>healthy := (err = None), msg := (case err of None \<Rightarrow> [] | Some t \<Rightarrow> t)\<rparr>"
  by (simp add: start_record_def Let_def split: option.splits)

lemma heap_set_runner [simp]: "heap (set_runner d a r) = heap d"
  and status_set_runner [simp]: "status (set_runner d a r) = status d"
  and items_set_runner [simp]: "items (set_runner d a r) = items d"
  and runners_set_runner [simp]: "runners (set_runner d a r) = (runners d)[a := r]"
  by (simp_all add: set_runner_def)

lemma failing_loop_heap_cong:
  "\<forall>(n, a) \<in> set es. msg (hp' ! a) = msg (hp ! a) \<Longrightarrow>
   failing_loop hp' es acc = failing_loop hp es acc"
  by (induction es arbitrary: acc) auto

lemma Investigate_ok:
  "len_items d < 63 \<Longrightarrow> Investigate d c =
     (None,
      d\<lparr>items := fmupd (Name c) (length (heap d)) (items d),
        heap := heap d @ [\<lparr>Check = c, healthy = False, msg = ''[n/a]'', pos = len_items d\<rparr>],
        status := update (status d) (len_items d) False,
        runners := runners d @ [spawned]\<rparr>)"
  by (simp add: Investigate_def Let_def)

lemma Investigate_full:
  "\<not> len_items d < 63 \<Longrightarrow>
   Investigate d c = (Some ''health-check treshold (64) exceeded'', d)"
  by (simp add: Investigate_def Let_def)

lemma Investigate_None_iff: "fst (Investigate d c) = None \<longleftrightarrow> len_items d < 63"
  by (simp add: Investigate_def Let_def)

lemma len_items_Investigate_new:
  "len_items d < 63 \<Longrightarrow> Name c |\<notin>| fmdom (items d) \<Longrightarrow>
   len_items (snd (Investigate d c)) = Suc (len_items d)"
  by (simp add: Investigate_ok len_items_def fcard_finsert_disjoint)


lemma Investigate_all_distinct:
  assumes "distinct (map Name cs)"
    and "\<forall>c \<in> set cs. Name c |\<notin>| fmdom (items d)"
    and "len_items d + length cs \<le> 63"
  shows "fst (Investigate_all d cs) = replicate (length cs) None \<and>
         map pos (heap (snd (Investigate_all d cs))) =
           map pos (heap d) @ [len_items d ..< len_items d + length cs] \<and>
         map Check (heap (snd (Investigate_all d cs))) = map Check (heap d) @ cs \<and>
         len_items (snd (Investigate_all d cs)) = len_items d + length cs \<and>
         length (runners (snd (Investigate_all d cs))) = length (runners d) + length cs"
  using assms
proof (induction cs arbitrary: d)
  case Nil
  then show ?case by simp
next
  case (Cons c cs)
  let ?d1 = "snd (Investigate d c)"
  have lt: "len_items d < 63" using Cons.prems(3) by simp
  have new: "Name c |\<notin>| fmdom (items d)" using Cons.prems(2) by simp
  have len1: "len_items ?d1 = Suc (len_items d)"
    by (rule len_items_Investigate_new[OF lt new])
  have dom1: "fmdom (items ?d1) = finsert (Name c) (fmdom (items d))"
    by (simp add: Investigate_ok[OF lt])
  have ih: "fst (Investigate_all ?d1 cs) = replicate (length cs) None \<and>
         map pos (heap (snd (Investigate_all ?d1 cs))) =
           map pos (heap ?d1) @ [len_items ?d1 ..< len_items ?d1 + length cs] \<and>
         map Check (heap (snd (Investigate_all ?d1 cs))) = map Check (heap ?d1) @ cs \<and>
         len_items (snd (Investigate_all ?d1 cs)) = len_items ?d1 + length cs \<and>
         length (runners (snd (Investigate_all ?d1 cs))) = length (runners ?d1) + length cs"
  proof (rule Cons.IH)
    show "distinct (map Name cs)" using Cons.prems(1) by simp
    show "\<forall>c\<in>set cs. Name c |\<notin>| fmdom (items ?d1)"
      using Cons.prems(1,2) by (auto simp: dom1 image_iff)
    show "len_items ?d1 + length cs \<le> 63" using Cons.prems(3) len1 by simp
  qed
  have unfold: "Investigate_all d (c # cs) =
      (fst (Investigate d c) # fst (Investigate_all ?d1 cs), snd (Investigate_all ?d1 cs))"
    by (simp split: prod.splits)
  have h1: "heap ?d1 = heap d @ [\<lparr>Check = c, healthy = False, msg = ''[n/a]'', pos = len_items d\<rparr>]"
    and r1: "runners ?d1 = runners d @ [spawned]"
    and e1: "fst (Investigate d c) = None"
    by (simp_all add: Investigate_ok[OF lt])
  have up: "[len_items d ..< len_items d + length (c # cs)] =
        len_items d # [Suc (len_items d) ..< Suc (len_items d) + length cs]"
    by (simp add: upt_conv_Cons del: upt_Suc)
  have "map pos (heap (snd (Investigate_all ?d1 cs))) =
          map pos (heap d) @ [len_items d ..< len_items d + length (c # cs)]"
    using ih unfolding up by (simp add: h1 len1 del: upt_Suc)
  then show ?case
    unfolding unfold using ih by (simp add: h1 r1 e1 len1 del: upt_Suc)
qed

lemma len_items_NewDoctor [simp]: "len_items NewDoctor = 0"
  by (simp add: len_items_def NewDoctor_def)

lemma pos_step:
  "step d ev = Inr d' \<Longrightarrow> a < length (heap d) \<Longrightarrow>
   pos (heap d' ! a) = pos (heap d ! a) \<and> Check (heap d' ! a) = Check (heap d ! a)"
proof (cases ev)
  case (Register c)
  then show "step d ev = Inr d' \<Longrightarrow> a < length (heap d) \<Longrightarrow> ?thesis"
    by (cases "len_items d < 63") (auto simp: Investigate_ok Investigate_full nth_append)
next
  case (HandlerDone b k)
  then show "step d ev = Inr d' \<Longrightarrow> a < length (heap d) \<Longrightarrow> ?thesis"
    by (cases "b = a")
       (auto simp: handler_goroutine_def Let_def heap_start_record_same start_record_heap_other
             split: if_splits outcome.splits)
qed (auto simp: Let_def split: if_splits phase.splits)

lemma items_step:
  "step d ev = Inr d' \<Longrightarrow>
   fmdom (items d) |\<subseteq>| fmdom (items d') \<and> length (heap d) \<le> length (heap d')"
proof (cases ev)
  case (Register c)
  then show "step d ev = Inr d' \<Longrightarrow> ?thesis"
    by (cases "len_items d < 63") (auto simp: Investigate_ok Investigate_full)
next
  case (HandlerDone b k)
  then show "step d ev = Inr d' \<Longrightarrow> ?thesis"
    by (auto simp: handler_goroutine_def Let_def split: if_splits outcome.splits)
qed (auto simp: Let_def split: if_splits phase.splits)

lemma Investigate_all_append:
  "Investigate_all d (xs @ ys) =
     (fst (Investigate_all d xs) @ fst (Investigate_all (snd (Investigate_all d xs)) ys),
      snd (Investigate_all (snd (Investigate_all d xs)) ys))"
  by (induction xs arbitrary: d) (simp_all split: prod.splits)

lemma distinct_numbered: "distinct (map Name (map numbered [0..<n]))"
proof -
  have "inj_on (\<lambda>i. replicate (Suc i) CHR ''c'') A" for A :: "nat set"
    by (rule inj_onI) (metis length_replicate old.nat.inject)
  then show ?thesis
    by (simp add: distinct_map numbered_def probe_def comp_def)
qed

lemma fmlookup_failing_loop:
  "distinct (map fst es) \<Longrightarrow>
   fmlookup (failing_loop hp es acc) n =
     (case map_of es n of
        None \<Rightarrow> fmlookup acc n
      | Some a \<Rightarrow> if msg (hp ! a) = [] then fmlookup acc n else Some (msg (hp ! a)))"
proof (induction es arbitrary: acc)
  case Nil
  then show ?case by simp
next
  case (Cons e es)
  obtain m b where e: "e = (m, b)" by (cases e)
  have notin: "map_of es m = None"
    using Cons.prems by (simp add: e map_of_eq_None_iff)
  have ih: "fmlookup (failing_loop hp es acc') n =
     (case map_of es n of
        None \<Rightarrow> fmlookup acc' n
      | Some a \<Rightarrow> if msg (hp ! a) = [] then fmlookup acc' n else Some (msg (hp ! a)))" for acc'
    using Cons.prems by (intro Cons.IH) simp
  show ?case
    using notin ih[of acc] ih[of "fmupd m (msg (hp ! b)) acc"]
    by (cases "n = m") (simp_all add: e split: option.splits)
qed

lemma run_append:
  "run d (xs @ ys) = (case run d xs of Inl c \<Rightarrow> Inl c | Inr d' \<Rightarrow> run d' ys)"
  by (induction xs arbitrary: d) (simp_all split: sum.splits)

lemma run_single_failing:
  assumes "Aspect c = None" and "\<forall>k. Handler c k = Returns (Some t)"
  shows "run NewDoctor (Register c # concat (map (cycle 0) [0..<j])) =
     Inr \<lparr>items = fmupd (Name c) 0 fmempty,
          heap = [\<lparr>Check = c, healthy = False, msg = (if j = 0 then ''[n/a]'' else t), pos = 0\<rparr>],
          status = 1,
          runners = [\<lparr>phase = LoopHead, cycles = j, pending = [], cancelled = False\<rparr>]\<rparr>"
proof (induction j)
  case 0
  then show ?case
    by (simp add: Investigate_def Let_def NewDoctor_def len_items_def spawned_def update_def
        fcard_fempty)
next
  case (Suc j)
  have "Register c # concat (map (cycle 0) [0..<Suc j]) =
        (Register c # concat (map (cycle 0) [0..<j])) @ cycle 0 j"
    by simp
  then show ?case
    using assms
    by (simp only: run_append Suc.IH)
       (simp add: cycle_def handler_goroutine_def Let_def set_runner_def start_record_def
          apply_aspect_def update_def)
qed

lemma bit_update_iff:
  "bit (update st p v) q \<longleftrightarrow> (if q = p \<and> p < 64 then \<not> v else bit st q)"
  by (auto simp: update_def bit_simps dest: bit_imp_le_length)

subsection \<open>The invariant holds in every state a run reaches\<close>

lemma wf_NewDoctor: "wf NewDoctor"
  by (simp add: wf_def NewDoctor_def)

lemma wf_start_record: "wf d \<Longrightarrow> wf (start_record d a err)"
proof -
  assume w: "wf d"
  have "list_all (\<lambda>hc. pos hc < 63) ((heap d)[a := hc])" if "pos hc < 63" for hc
    using w that by (auto simp: wf_def list_all_iff dest: set_update_subset_insert[THEN subsetD])
  moreover have "a < length (heap d) \<Longrightarrow> pos (heap d ! a) < 63"
    using w by (simp add: wf_def list_all_length)
  ultimately show ?thesis
    using w
    by (cases "a < length (heap d)")
       (auto simp: wf_def start_record_def Let_def list_update_beyond split: option.splits)
qed

lemma wf_set_runner: "wf d \<Longrightarrow> wf (set_runner d a r)"
  by (simp add: wf_def)

lemma wf_step: "wf d \<Longrightarrow> step d ev = Inr d' \<Longrightarrow> wf d'"
proof (cases ev)
  case (Register c)
  then show "wf d \<Longrightarrow> step d ev = Inr d' \<Longrightarrow> wf d'"
    by (cases "len_items d < 63") (auto simp: Investigate_ok Investigate_full wf_def)
next
  case (HandlerDone a k)
  then show "wf d \<Longrightarrow> step d ev = Inr d' \<Longrightarrow> wf d'"
    by (auto simp: handler_goroutine_def Let_def wf_set_runner wf_start_record
        split: if_splits outcome.splits)
qed (auto simp: Let_def wf_set_runner split: if_splits phase.splits)

lemma wf_run: "wf d \<Longrightarrow> run d es = Inr d' \<Longrightarrow> wf d'"
proof (induction es arbitrary: d)
  case Nil
  then show ?case by simp
next
  case (Cons e es)
  then show ?case
    by (auto split: sum.splits dest: wf_step)
qed

lemma reachable_pos:
  assumes "run NewDoctor es = Inr d" and "a < length (runners d)"
  shows "a < length (heap d) \<and> pos (heap d ! a) < 63"
  using wf_run[OF wf_NewDoctor assms(1)] assms(2) by (simp add: wf_def list_all_length)

subsection \<open>The example states, evaluated\<close>


lemma Name_probe [simp]: "Name (probe n h) = n"
  and Handler_probe [simp]: "Handler (probe n h) = h"
  and Aspect_probe [simp]: "Aspect (probe n h) = None"
  by (simp_all add: probe_def)



lemma one_check_eq:
  "one_check =
     \<lparr>items = fmupd ''db'' 0 fmempty,
      heap = [\<lparr>Check = probe ''db'' (always (Returns None)), healthy = False, msg = ''[n/a]'', pos = 0\<rparr>],
      status = 1,
      runners = [spawned]\<rparr>"
  by (simp add: one_check_def NewDoctor_def Investigate_def Let_def len_items_def fcard_fempty
      update_def)

lemma two_checks_eq:
  "two_checks =
     \<lparr>items = fmupd ''cache'' 1 (fmupd ''db'' 0 fmempty),
      heap = [\<lparr>Check = probe ''db'' (always (Returns None)), healthy = False, msg = ''[n/a]'', pos = 0\<rparr>,
              \<lparr>Check = probe ''cache'' (always (Returns None)), healthy = False, msg = ''[n/a]'', pos = 1\<rparr>],
      status = 3,
      runners = [spawned, spawned]\<rparr>"
  by (simp add: two_checks_def one_check_eq Investigate_def Let_def len_items_def fcard_fempty
      fcard_finsert_if update_def)

lemma down_waiting_eq:
  "down_waiting =
     \<lparr>items = fmupd ''db'' 0 fmempty,
      heap = [\<lparr>Check = probe ''db'' (always (Returns (Some ''down''))), healthy = False,
               msg = ''[n/a]'', pos = 0\<rparr>],
      status = 1,
      runners = [\<lparr>phase = AwaitDone 0, cycles = 1, pending = [0], cancelled = False\<rparr>]\<rparr>"
  by (simp add: down_waiting_def NewDoctor_def Investigate_def Let_def len_items_def fcard_fempty
      spawned_def update_def set_runner_def)

lemma forgiven_waiting_eq:
  "forgiven_waiting =
     \<lparr>items = fmupd ''db'' 0 fmempty,
      heap = [\<lparr>Check = (probe ''db'' (always (Returns (Some ''down''))))\<lparr>Aspect := Some forgiving\<rparr>,
               healthy = False, msg = ''[n/a]'', pos = 0\<rparr>],
      status = 1,
      runners = [\<lparr>phase = AwaitDone 0, cycles = 1, pending = [0], cancelled = False\<rparr>]\<rparr>"
  by (simp add: forgiven_waiting_def NewDoctor_def Investigate_def Let_def len_items_def
      fcard_fempty spawned_def update_def set_runner_def)

lemma panic_waiting_eq:
  "panic_waiting =
     \<lparr>items = fmupd ''db'' 0 fmempty,
      heap = [\<lparr>Check = probe ''db'' (always (Panics ''nil map'')), healthy = False,
               msg = ''[n/a]'', pos = 0\<rparr>],
      status = 1,
      runners = [\<lparr>phase = AwaitDone 0, cycles = 1, pending = [0], cancelled = False\<rparr>]\<rparr>"
  by (simp add: panic_waiting_def NewDoctor_def Investigate_def Let_def len_items_def fcard_fempty
      spawned_def update_def set_runner_def)

lemma run_down_waiting:
  "run NewDoctor [Register (probe ''db'' (always (Returns (Some ''down'')))), CycleStart 0] =
     Inr down_waiting"
  unfolding down_waiting_eq
  by (simp add: NewDoctor_def Investigate_def Let_def len_items_def fcard_fempty spawned_def
      update_def set_runner_def)

lemma run_forgiven_waiting:
  "run NewDoctor
     [Register ((probe ''db'' (always (Returns (Some ''down''))))\<lparr>Aspect := Some forgiving\<rparr>),
      CycleStart 0] = Inr forgiven_waiting"
  unfolding forgiven_waiting_eq
  by (simp add: NewDoctor_def Investigate_def Let_def len_items_def fcard_fempty spawned_def
      update_def set_runner_def)


subsection \<open>Runs that register pairwise different names\<close>

lemma dense_NewDoctor: "dense NewDoctor"
  by (simp add: dense_def NewDoctor_def len_items_def fcard_fempty)


lemma map_pos_start_record: "map pos (heap (start_record d a err)) = map pos (heap d)"
  by (cases "a < length (heap d)")
     (auto simp: start_record_def Let_def map_update list_update_beyond list_update_same_conv
           split: option.splits)

lemma len_items_start_record: "len_items (start_record d a err) = len_items d"
  by (simp add: len_items_def)

lemma len_items_set_runner: "len_items (set_runner d a r) = len_items d"
  by (simp add: len_items_def)

lemma dense_start_record: "dense d \<Longrightarrow> dense (start_record d a err)"
  by (simp add: dense_def map_pos_start_record len_items_start_record)

lemma dense_set_runner: "dense d \<Longrightarrow> dense (set_runner d a r)"
  by (simp add: dense_def len_items_set_runner)

lemma dense_Investigate:
  assumes "dense d" and "Name c |\<notin>| fmdom (items d)"
  shows "dense (snd (Investigate d c))"
proof (cases "len_items d < 63")
  case True
  have "len_items (snd (Investigate d c)) = Suc (len_items d)"
    by (rule len_items_Investigate_new[OF True assms(2)])
  then show ?thesis
    using assms(1) by (simp add: Investigate_ok[OF True] dense_def)
next
  case False
  then show ?thesis
    using assms(1) by (simp add: Investigate_full)
qed

lemma fmdom_Investigate:
  "fmdom (items (snd (Investigate d c))) |\<subseteq>| finsert (Name c) (fmdom (items d))"
  by (cases "len_items d < 63") (auto simp: Investigate_ok Investigate_full)

lemma items_step_other:
  "step d ev = Inr d' \<Longrightarrow> (\<forall>c. ev \<noteq> Register c) \<Longrightarrow> items d' = items d"
  by (cases ev) (auto simp: handler_goroutine_def Let_def split: if_splits outcome.splits phase.splits)

lemma dense_step:
  assumes "dense d" and "step d ev = Inr d'"
    and "\<forall>n \<in> set (registered [ev]). n |\<notin>| fmdom (items d)"
  shows "dense d'"
proof (cases ev)
  case (Register c)
  then show ?thesis
    using assms dense_Investigate[of d c] by auto
next
  case (HandlerDone a k)
  then show ?thesis
    using assms(1,2)
    by (auto simp: handler_goroutine_def Let_def dense_set_runner dense_start_record
        split: if_splits outcome.splits)
qed (use assms(1,2) in \<open>auto simp: Let_def dense_set_runner split: if_splits phase.splits\<close>)

lemma registered_append: "registered (xs @ ys) = registered xs @ registered ys"
  by (induction xs rule: registered.induct) simp_all

lemma fresh_step:
  assumes "step d ev = Inr d'"
    and "distinct (registered (ev # es))"
    and "\<forall>n \<in> set (registered (ev # es)). n |\<notin>| fmdom (items d)"
  shows "distinct (registered es) \<and> (\<forall>n \<in> set (registered es). n |\<notin>| fmdom (items d'))"
proof (cases ev)
  case (Register c)
  have "fmdom (items d') |\<subseteq>| finsert (Name c) (fmdom (items d))"
    using assms(1) Register fmdom_Investigate[of d c] by auto
  then show ?thesis
    using assms(2,3) Register by auto
qed (use assms items_step_other[OF assms(1)] in auto)

lemma dense_run:
  assumes "dense d" and "run d (xs @ ys) = Inr d''"
    and "distinct (registered (xs @ ys))"
    and "\<forall>n \<in> set (registered (xs @ ys)). n |\<notin>| fmdom (items d)"
  shows "\<exists>d'. run d xs = Inr d' \<and> run d' ys = Inr d'' \<and> dense d' \<and>
           distinct (registered ys) \<and> (\<forall>n \<in> set (registered ys). n |\<notin>| fmdom (items d'))"
  using assms
proof (induction xs arbitrary: d)
  case Nil
  then show ?case by simp
next
  case (Cons e xs)
  from Cons.prems(2) obtain d1 where s: "step d e = Inr d1" and r: "run d1 (xs @ ys) = Inr d''"
    by (auto split: sum.splits)
  have f: "distinct (registered (xs @ ys)) \<and>
      (\<forall>n \<in> set (registered (xs @ ys)). n |\<notin>| fmdom (items d1))"
    using fresh_step[OF s, of "xs @ ys"] Cons.prems(3,4) by simp
  have "\<forall>n \<in> set (registered [e]). n |\<notin>| fmdom (items d)"
    using Cons.prems(4) by (cases e) auto
  then have "dense d1"
    by (rule dense_step[OF Cons.prems(1) s])
  from Cons.IH[OF this r] f show ?case
    using s by auto
qed







lemma run_db_succeeded:
  "run two_checks [CycleStart 0, HandlerDone 0 0] = Inr db_succeeded"
proof -
  have "\<not> isl (run two_checks [CycleStart 0, HandlerDone 0 0])"
    by (simp add: two_checks_eq spawned_def set_runner_def handler_goroutine_def Let_def
        always_def)
  then show ?thesis
    by (simp add: db_succeeded_def)
qed

lemma dense_reachable:
  assumes "run NewDoctor evs = Inr e" and "distinct (registered evs)"
  shows "dense e"
proof -
  have "run NewDoctor (evs @ []) = Inr e" "distinct (registered (evs @ []))"
    "\<forall>n \<in> set (registered (evs @ [])). n |\<notin>| fmdom (items NewDoctor)"
    using assms by (simp_all add: NewDoctor_def)
  from dense_run[OF dense_NewDoctor this] obtain d' where
    "run NewDoctor evs = Inr d'" "run d' [] = Inr e" "dense d'"
    by blast
  then show ?thesis by simp
qed

lemma tagged_waiting_eq:
  "tagged_waiting =
     \<lparr>items = fmupd ''db'' 0 fmempty,
      heap = [\<lparr>Check = (probe ''db'' (always (Returns (Some ''down''))))\<lparr>Aspect := Some tagging\<rparr>,
               healthy = False, msg = ''[n/a]'', pos = 0\<rparr>],
      status = 1,
      runners = [\<lparr>phase = AwaitDone 0, cycles = 1, pending = [0], cancelled = False\<rparr>]\<rparr>"
  by (simp add: tagged_waiting_def NewDoctor_def Investigate_def Let_def len_items_def
      fcard_fempty spawned_def update_def set_runner_def)

lemma run_tagged_waiting:
  "run NewDoctor [Register ((probe ''db'' (always (Returns (Some ''down''))))\<lparr>Aspect := Some tagging\<rparr>), CycleStart 0] = Inr tagged_waiting"
  unfolding tagged_waiting_eq
  by (simp add: NewDoctor_def Investigate_def Let_def len_items_def fcard_fempty spawned_def
      update_def set_runner_def)

lemma strict_waiting_eq:
  "strict_waiting =
     \<lparr>items = fmupd ''db'' 0 fmempty,
      heap = [\<lparr>Check = (probe ''db'' (always (Returns None)))\<lparr>Aspect := Some strict\<rparr>,
               healthy = False, msg = ''[n/a]'', pos = 0\<rparr>],
      status = 1,
      runners = [\<lparr>phase = AwaitDone 0, cycles = 1, pending = [0], cancelled = False\<rparr>]\<rparr>"
  by (simp add: strict_waiting_def NewDoctor_def Investigate_def Let_def len_items_def
      fcard_fempty spawned_def update_def set_runner_def)

lemma run_strict_waiting:
  "run NewDoctor [Register ((probe ''db'' (always (Returns None)))\<lparr>Aspect := Some strict\<rparr>), CycleStart 0] = Inr strict_waiting"
  unfolding strict_waiting_eq
  by (simp add: NewDoctor_def Investigate_def Let_def len_items_def fcard_fempty spawned_def
      update_def set_runner_def)

subsection \<open>The claims\<close>

text \<open>
  C1: registrations of checks with different names succeed up to a capacity, the
  registration beyond it fails and changes nothing, and the capacity enforced is the
  number the error message states. Evaluated on 64 registrations of checks with different
  names into a new Doctor: the first 63 return nil and fill the registry to 63 entries,
  the 64th is refused and leaves the state as it was, and the text of its error names
  64 as the threshold.
\<close>

theorem capacity_message_mismatch:
  "fst (Investigate_all NewDoctor (map numbered [0..<64])) =
     replicate 63 None @ [Some ''health-check treshold (64) exceeded''] \<and>
   len_items (snd (Investigate_all NewDoctor (map numbered [0..<63]))) = 63 \<and>
   snd (Investigate_all NewDoctor (map numbered [0..<64])) =
     snd (Investigate_all NewDoctor (map numbered [0..<63]))"
proof -
  let ?cs = "map numbered [0..<63]"
  let ?d = "snd (Investigate_all NewDoctor ?cs)"
  have split: "map numbered [0..<64] = ?cs @ [numbered 63]"
  proof -
    have "[0..<64] = [0..<63] @ [63::nat]"
      using upt_Suc_append[of 0 63] by simp
    then show ?thesis by simp
  qed
  have "\<forall>c \<in> set ?cs. Name c |\<notin>| fmdom (items NewDoctor)"
    by (simp add: NewDoctor_def)
  moreover have "len_items NewDoctor + length ?cs \<le> 63"
    by simp
  ultimately have reg:
    "fst (Investigate_all NewDoctor ?cs) = replicate (length ?cs) None \<and>
     map pos (heap ?d) = map pos (heap NewDoctor) @ [len_items NewDoctor ..< len_items NewDoctor + length ?cs] \<and>
     map Check (heap ?d) = map Check (heap NewDoctor) @ ?cs \<and>
     len_items ?d = len_items NewDoctor + length ?cs \<and>
     length (runners ?d) = length (runners NewDoctor) + length ?cs"
    by (rule Investigate_all_distinct[OF distinct_numbered])
  then have len: "len_items ?d = 63" and ok: "fst (Investigate_all NewDoctor ?cs) = replicate 63 None"
    by simp_all
  have last: "Investigate ?d (numbered 63) = (Some ''health-check treshold (64) exceeded'', ?d)"
    by (rule Investigate_full) (simp add: len)
  show ?thesis
    unfolding split Investigate_all_append by (simp add: last ok len)
qed







text \<open>
  C4: for every state of the aggregator, \<open>Healthy\<close> is true exactly when the bitmask is
  zero, that is, when no bit of it is set.
\<close>

theorem Healthy_iff_zero:
  "(Healthy d \<longleftrightarrow> status d = 0) \<and> (Healthy d \<longleftrightarrow> (\<forall>i. \<not> bit (status d) i))"
proof -
  have "status d = 0" if "\<forall>i. \<not> bit (status d) i"
    using that by (intro bit_eqI) simp
  moreover have "\<forall>i. \<not> bit (status d) i" if "status d = 0"
    using that by simp
  ultimately show ?thesis
    unfolding Healthy_def by blast
qed

text \<open>
  C5: \<open>update st p v\<close> sets bit \<open>p\<close> of the 64-bit mask when \<open>v\<close> is false and clears it
  when \<open>v\<close> is true, and every other bit keeps its value. So a recorded result of the
  check at \<open>a\<close> changes at most the bit at that check's position, and the failure
  snapshot keeps, under every name that belongs to another check, the entry it had.
\<close>

theorem update_frame:
  "(bit (update st p v) q \<longleftrightarrow> (if q = p \<and> p < 64 then \<not> v else bit st q)) \<and>
   (p < 64 \<longrightarrow> bit (update st p False) p \<and> \<not> bit (update st p True) p) \<and>
   (q \<noteq> p \<longrightarrow> (bit (update st p v) q \<longleftrightarrow> bit st q)) \<and>
   (bit (status (start_record d a err)) q \<longleftrightarrow>
      (if q = pos (heap d ! a) \<and> q < 64 then err \<noteq> None else bit (status d) q)) \<and>
   (range_of (items d) es \<and> fmlookup (items d) n \<noteq> Some a \<longrightarrow>
      fmlookup (failing (start_record d a err) es) n = fmlookup (failing d es) n)"
proof -
  have upd: "bit (update st p v) q \<longleftrightarrow> (if q = p \<and> p < 64 then \<not> v else bit st q)"
    by (rule bit_update_iff)
  have own: "p < 64 \<longrightarrow> bit (update st p False) p \<and> \<not> bit (update st p True) p"
    by (simp add: bit_update_iff)
  have others: "q \<noteq> p \<longrightarrow> (bit (update st p v) q \<longleftrightarrow> bit st q)"
    by (simp add: bit_update_iff)
  have rec: "bit (status (start_record d a err)) q \<longleftrightarrow>
      (if q = pos (heap d ! a) \<and> q < 64 then err \<noteq> None else bit (status d) q)"
    by (simp add: status_start_record bit_update_iff)
  have snap: "fmlookup (failing (start_record d a err) es) n = fmlookup (failing d es) n"
    if r: "range_of (items d) es \<and> fmlookup (items d) n \<noteq> Some a"
  proof -
    have dist: "distinct (map fst es)" and eq: "items d = fmap_of_list es"
      using r by (simp_all add: range_of_def)
    have m: "map_of es n \<noteq> Some a"
      using r by (simp add: eq fmlookup_of_list)
    show ?thesis
    proof (cases "map_of es n")
      case None
      then show ?thesis
        by (simp add: failing_def fmlookup_failing_loop[OF dist])
    next
      case (Some b)
      then have "b \<noteq> a" using m by simp
      then show ?thesis
        by (simp add: failing_def fmlookup_failing_loop[OF dist] Some start_record_heap_other)
    qed
  qed
  show ?thesis
    using upd own others rec snap by blast
qed

text \<open>
  The theorem at the mask 1 and position 1, and at a success recorded by \<open>cache\<close> in
  \<open>two_checks\<close>, which leaves the entry of \<open>db\<close> in the snapshot.
\<close>

theorem update_frame_witness:
  "(1::nat) < 64 \<and> bit (update 1 1 False) 1 \<and> \<not> bit (update 1 1 True) 1 \<and>
   bit (update 1 1 True) 0 \<and> bit (update 1 1 False) 0 \<and>
   range_of (items two_checks) [(''cache'', 1), (''db'', 0)] \<and>
   fmlookup (items two_checks) ''db'' = Some 0 \<and>
   fmlookup (failing (start_record two_checks 1 None) [(''cache'', 1), (''db'', 0)]) ''db'' =
     fmlookup (failing two_checks [(''cache'', 1), (''db'', 0)]) ''db''"
proof -
  have r: "range_of (items two_checks) [(''cache'', 1), (''db'', 0)]"
    and l: "fmlookup (items two_checks) ''db'' = Some 0"
    by (simp_all add: two_checks_eq range_of_def)
  show ?thesis
    using update_frame[of 1 1 True 0 two_checks 1 None "[(''cache'', 1), (''db'', 0)]" "''db''"]
      update_frame[of 1 1 False 0 two_checks 1 None "[(''cache'', 1), (''db'', 0)]" "''db''"]
      r l
    by simp
qed

text \<open>
  C6: in every state that a run reaches, when the handler invocation of cycle \<open>k\<close> of
  a check returns \<open>raw\<close>, its goroutine records the result after the aspect, which is
  \<open>raw\<close> itself when the check has no aspect and the aspect's value at the check and
  \<open>raw\<close> otherwise: \<^verbatim>\<open>nil\<close> clears the check's bit, sets \<open>healthy\<close> and empties the
  message; an error sets the bit, clears \<open>healthy\<close> and stores the error's text as the
  message.
\<close>

theorem cycle_records_result:
  assumes "run NewDoctor evs = Inr d"
    and "a < length (runners d)"
    and "k \<in> set (pending (runners d ! a))"
    and "Handler (Check (heap d ! a)) k = Returns raw"
  defines "c \<equiv> Check (heap d ! a)"
  defines "res \<equiv> (case Aspect c of None \<Rightarrow> raw | Some f \<Rightarrow> f (Name c, Interval c, Timeout c) raw)"
  shows "\<exists>d'. step d (HandlerDone a k) = Inr d' \<and>
           Check (heap d' ! a) = c \<and> pos (heap d' ! a) = pos (heap d ! a) \<and>
           (res = None \<longrightarrow>
              \<not> bit (status d') (pos (heap d ! a)) \<and> healthy (heap d' ! a) \<and>
              msg (heap d' ! a) = []) \<and>
           (\<forall>t. res = Some t \<longrightarrow>
              bit (status d') (pos (heap d ! a)) \<and> \<not> healthy (heap d' ! a) \<and>
              msg (heap d' ! a) = t)"
proof -
  have r: "apply_aspect c raw = res"
    by (simp add: apply_aspect_def res_def)
  have "a < length (heap d)" and "pos (heap d ! a) < 64"
    using reachable_pos[OF assms(1,2)] by simp_all
  then show ?thesis
    using assms(2-4) r
    by (simp add: handler_goroutine_def Let_def status_start_record bit_update_iff
        heap_start_record_same c_def)
qed

text \<open>
  The theorem at a handler failing with \<open>down\<close>: without aspect the failure is recorded
  with its text, with the forgiving aspect a success is recorded, with the tagging aspect
  the failure is recorded with the text the aspect made of it; and at a handler that
  succeeds, under the strict aspect: the aspect's error is recorded.
\<close>

theorem cycle_records_result_witness:
  "run NewDoctor
     [Register ((probe ''db'' (always (Returns (Some ''down''))))\<lparr>Aspect := Some tagging\<rparr>),
      CycleStart 0] = Inr tagged_waiting \<and>
   0 < length (runners tagged_waiting) \<and>
   0 \<in> set (pending (runners down_waiting ! 0)) \<and>
   Handler (Check (heap down_waiting ! 0)) 0 = Returns (Some ''down'') \<and>
   \<not> isl (step down_waiting (HandlerDone 0 0)) \<and>
   bit (status (projr (step down_waiting (HandlerDone 0 0)))) 0 \<and>
   \<not> healthy (heap (projr (step down_waiting (HandlerDone 0 0))) ! 0) \<and>
   msg (heap (projr (step down_waiting (HandlerDone 0 0))) ! 0) = ''down'' \<and>
   0 \<in> set (pending (runners forgiven_waiting ! 0)) \<and>
   Handler (Check (heap forgiven_waiting ! 0)) 0 = Returns (Some ''down'') \<and>
   \<not> isl (step forgiven_waiting (HandlerDone 0 0)) \<and>
   \<not> bit (status (projr (step forgiven_waiting (HandlerDone 0 0)))) 0 \<and>
   healthy (heap (projr (step forgiven_waiting (HandlerDone 0 0))) ! 0) \<and>
   msg (heap (projr (step forgiven_waiting (HandlerDone 0 0))) ! 0) = [] \<and>
   0 \<in> set (pending (runners tagged_waiting ! 0)) \<and>
   Handler (Check (heap tagged_waiting ! 0)) 0 = Returns (Some ''down'') \<and>
   \<not> isl (step tagged_waiting (HandlerDone 0 0)) \<and>
   bit (status (projr (step tagged_waiting (HandlerDone 0 0)))) 0 \<and>
   \<not> healthy (heap (projr (step tagged_waiting (HandlerDone 0 0))) ! 0) \<and>
   msg (heap (projr (step tagged_waiting (HandlerDone 0 0))) ! 0) = ''db: down'' \<and>
   0 \<in> set (pending (runners strict_waiting ! 0)) \<and>
   Handler (Check (heap strict_waiting ! 0)) 0 = Returns (None) \<and>
   \<not> isl (step strict_waiting (HandlerDone 0 0)) \<and>
   bit (status (projr (step strict_waiting (HandlerDone 0 0)))) 0 \<and>
   \<not> healthy (heap (projr (step strict_waiting (HandlerDone 0 0))) ! 0) \<and>
   msg (heap (projr (step strict_waiting (HandlerDone 0 0))) ! 0) = ''unverified (100)''"
proof -
  have h0: "0 < length (runners down_waiting)" "0 \<in> set (pending (runners down_waiting ! 0))"
    "Handler (Check (heap down_waiting ! 0)) 0 = Returns (Some ''down'')"
    by (simp_all add: down_waiting_eq always_def)
  from cycle_records_result[OF run_down_waiting h0] obtain d0 where
    d0: "step down_waiting (HandlerDone 0 0) = Inr d0"
      "bit (status d0) 0 \<and> \<not> healthy (heap d0 ! 0) \<and> msg (heap d0 ! 0) = ''down''"
    by (auto simp: down_waiting_eq always_def)
  have h1: "0 < length (runners forgiven_waiting)" "0 \<in> set (pending (runners forgiven_waiting ! 0))"
    "Handler (Check (heap forgiven_waiting ! 0)) 0 = Returns (Some ''down'')"
    by (simp_all add: forgiven_waiting_eq always_def forgiving_def)
  from cycle_records_result[OF run_forgiven_waiting h1] obtain d1 where
    d1: "step forgiven_waiting (HandlerDone 0 0) = Inr d1"
      "\<not> bit (status d1) 0 \<and> healthy (heap d1 ! 0) \<and> msg (heap d1 ! 0) = []"
    by (auto simp: forgiven_waiting_eq always_def forgiving_def)
  have h2: "0 < length (runners tagged_waiting)" "0 \<in> set (pending (runners tagged_waiting ! 0))"
    "Handler (Check (heap tagged_waiting ! 0)) 0 = Returns (Some ''down'')"
    by (simp_all add: tagged_waiting_eq always_def tagging_def probe_def)
  from cycle_records_result[OF run_tagged_waiting h2] obtain d2 where
    d2: "step tagged_waiting (HandlerDone 0 0) = Inr d2"
      "bit (status d2) 0 \<and> \<not> healthy (heap d2 ! 0) \<and> msg (heap d2 ! 0) = ''db: down''"
    by (auto simp: tagged_waiting_eq always_def tagging_def probe_def)
  have h3: "0 < length (runners strict_waiting)" "0 \<in> set (pending (runners strict_waiting ! 0))"
    "Handler (Check (heap strict_waiting ! 0)) 0 = Returns (None)"
    by (simp_all add: strict_waiting_eq always_def strict_def probe_def)
  from cycle_records_result[OF run_strict_waiting h3] obtain d3 where
    d3: "step strict_waiting (HandlerDone 0 0) = Inr d3"
      "bit (status d3) 0 \<and> \<not> healthy (heap d3 ! 0) \<and> msg (heap d3 ! 0) = ''unverified (100)''"
    by (auto simp: strict_waiting_eq always_def strict_def probe_def)
  show ?thesis
    unfolding d0(1) d1(1) d2(1) d3(1)
    using run_tagged_waiting h0 h1 h2 h3 d0(2) d1(2) d2(2) d3(2) by simp
qed

text \<open>
  C7: for every order \<open>es\<close> in which the loop can meet the registry's entries, \<open>failing\<close>
  builds, from an empty map, the map that holds under each registered name the message of
  its check when that message is not empty, and nothing else. For a Doctor with the single
  check \<open>c\<close>, without aspect, whose handler fails with \<open>boom\<close> in every cycle, after any
  positive number of cycles the map is \<open>{Name c: boom}\<close> and \<open>Healthy\<close> is false.
\<close>

theorem failing_exact:
  "(range_of (items d) es \<longrightarrow>
      (\<forall>n. fmlookup (failing d es) n =
         (case fmlookup (items d) n of
            None \<Rightarrow> None
          | Some a \<Rightarrow> if msg (heap d ! a) = [] then None else Some (msg (heap d ! a))))) \<and>
   (Aspect c = None \<and> (\<forall>k. Handler c k = Returns (Some ''boom'')) \<and> 0 < j \<longrightarrow>
      \<not> isl (run NewDoctor (Register c # concat (map (cycle 0) [0..<j]))) \<and>
      range_of (items (projr (run NewDoctor (Register c # concat (map (cycle 0) [0..<j])))))
        [(Name c, 0)] \<and>
      failing (projr (run NewDoctor (Register c # concat (map (cycle 0) [0..<j])))) [(Name c, 0)] =
        fmupd (Name c) ''boom'' fmempty \<and>
      \<not> Healthy (projr (run NewDoctor (Register c # concat (map (cycle 0) [0..<j])))))"
proof (intro conjI impI allI)
  fix n
  assume r: "range_of (items d) es"
  then have "items d = fmap_of_list es"
    by (simp add: range_of_def)
  then have "fmlookup (items d) n = map_of es n"
    by (simp add: fmlookup_of_list)
  then show "fmlookup (failing d es) n =
         (case fmlookup (items d) n of
            None \<Rightarrow> None
          | Some a \<Rightarrow> if msg (heap d ! a) = [] then None else Some (msg (heap d ! a)))"
    using r by (simp add: failing_def range_of_def fmlookup_failing_loop split: option.splits)
next
  assume a: "Aspect c = None \<and> (\<forall>k. Handler c k = Returns (Some ''boom'')) \<and> 0 < j"
  then have run: "run NewDoctor (Register c # concat (map (cycle 0) [0..<j])) =
     Inr \<lparr>items = fmupd (Name c) 0 fmempty,
          heap = [\<lparr>Check = c, healthy = False, msg = ''boom'', pos = 0\<rparr>],
          status = 1,
          runners = [\<lparr>phase = LoopHead, cycles = j, pending = [], cancelled = False\<rparr>]\<rparr>"
    using run_single_failing[of c "''boom''" j] by simp
  show "\<not> isl (run NewDoctor (Register c # concat (map (cycle 0) [0..<j])))"
    unfolding run by simp
  show "range_of (items (projr (run NewDoctor (Register c # concat (map (cycle 0) [0..<j])))))
        [(Name c, 0)]"
    unfolding run by (simp add: range_of_def)
  show "failing (projr (run NewDoctor (Register c # concat (map (cycle 0) [0..<j])))) [(Name c, 0)] =
        fmupd (Name c) ''boom'' fmempty"
    unfolding run by (simp add: failing_def)
  show "\<not> Healthy (projr (run NewDoctor (Register c # concat (map (cycle 0) [0..<j]))))"
    unfolding run by (simp add: Healthy_def)
qed

text \<open>
  The theorem at \<open>two_checks\<close>, whose checks both still carry \<open>[n/a]\<close>, and at two
  cycles of a check failing with \<open>boom\<close>.
\<close>

theorem failing_exact_witness:
  "range_of (items two_checks) [(''cache'', 1), (''db'', 0)] \<and>
   fmlookup (failing two_checks [(''cache'', 1), (''db'', 0)]) ''db'' = Some ''[n/a]'' \<and>
   fmlookup (failing two_checks [(''cache'', 1), (''db'', 0)]) ''web'' = None \<and>
   Aspect (probe ''db'' (always (Returns (Some ''boom'')))) = None \<and>
   Handler (probe ''db'' (always (Returns (Some ''boom'')))) 7 = Returns (Some ''boom'') \<and>
   (0::nat) < 2 \<and>
   failing (projr (run NewDoctor (Register (probe ''db'' (always (Returns (Some ''boom'')))) #
       concat (map (cycle 0) [0..<2])))) [(''db'', 0)] = fmupd ''db'' ''boom'' fmempty \<and>
   \<not> Healthy (projr (run NewDoctor (Register (probe ''db'' (always (Returns (Some ''boom'')))) #
       concat (map (cycle 0) [0..<2]))))"
proof -
  have r: "range_of (items two_checks) [(''cache'', 1), (''db'', 0)]"
    by (simp add: two_checks_eq range_of_def)
  have l: "fmlookup (items two_checks) ''db'' = Some 0" "fmlookup (items two_checks) ''web'' = None"
    and m: "msg (heap two_checks ! 0) = ''[n/a]''"
    by (simp_all add: two_checks_eq)
  have h: "Aspect (probe ''db'' (always (Returns (Some ''boom'')))) = None \<and>
      (\<forall>k. Handler (probe ''db'' (always (Returns (Some ''boom'')))) k = Returns (Some ''boom'')) \<and>
      (0::nat) < 2"
    by (simp add: always_def)
  have a: "fmlookup (failing two_checks [(''cache'', 1), (''db'', 0)]) ''db'' = Some ''[n/a]''"
    using failing_exact[of two_checks "[(''cache'', 1), (''db'', 0)]"
        "probe ''db'' (always (Returns (Some ''boom'')))" 2] r l m
    by simp
  have b: "fmlookup (failing two_checks [(''cache'', 1), (''db'', 0)]) ''web'' = None"
    using failing_exact[of two_checks "[(''cache'', 1), (''db'', 0)]"
        "probe ''db'' (always (Returns (Some ''boom'')))" 2] r l
    by simp
  have c: "failing (projr (run NewDoctor (Register (probe ''db'' (always (Returns (Some ''boom'')))) #
       concat (map (cycle 0) [0..<2])))) [(''db'', 0)] = fmupd ''db'' ''boom'' fmempty \<and>
   \<not> Healthy (projr (run NewDoctor (Register (probe ''db'' (always (Returns (Some ''boom'')))) #
       concat (map (cycle 0) [0..<2]))))"
    using failing_exact[of two_checks "[(''cache'', 1), (''db'', 0)]"
        "probe ''db'' (always (Returns (Some ''boom'')))" 2] h
    by (simp only: Name_probe) blast
  show ?thesis
    using r a b c h by (simp only: simp_thms)
qed

text \<open>
  C8, as amended: a successful registration gives its check the position that is the
  number of entries of the registry at the time of the call, and no step of the process
  changes the position of a check or removes a name or an object. In a run that registers
  pairwise different names, whatever else happens in between, the positions are the
  indices of the checks in the order of their registration, so they are dense and pairwise
  different, and the registry has one entry for each check. \<^verbatim>\<open>Investigate\<close> holds the
  registry's lock from entry to return, so calls from several callers take effect one
  after the other, in some order \<open>cs\<close>: registering checks with pairwise different names
  into a new Doctor, at most 63 of them, succeeds each time, gives the \<open>i\<close>-th the
  position \<open>i\<close>, and leaves a registry with as many entries as there were calls.
\<close>

theorem positions_dense_unique:
  "(Investigate d c = (None, d1) \<longrightarrow>
      heap d1 = heap d @ [\<lparr>Check = c, healthy = False, msg = ''[n/a]'', pos = len_items d\<rparr>]) \<and>
   (step d ev = Inr d2 \<and> a < length (heap d) \<longrightarrow>
      pos (heap d2 ! a) = pos (heap d ! a) \<and>
      fmdom (items d) |\<subseteq>| fmdom (items d2) \<and> length (heap d) \<le> length (heap d2)) \<and>
   (run NewDoctor evs = Inr e \<and> distinct (registered evs) \<longrightarrow>
      map pos (heap e) = [0 ..< length (heap e)] \<and> distinct (map pos (heap e)) \<and>
      len_items e = length (heap e)) \<and>
   (distinct (map Name cs) \<and> length cs \<le> 63 \<longrightarrow>
      fst (Investigate_all NewDoctor cs) = replicate (length cs) None \<and>
      map pos (heap (snd (Investigate_all NewDoctor cs))) = [0 ..< length cs] \<and>
      map Check (heap (snd (Investigate_all NewDoctor cs))) = cs \<and>
      distinct (map pos (heap (snd (Investigate_all NewDoctor cs)))) \<and>
      len_items (snd (Investigate_all NewDoctor cs)) = length cs)"
proof -
  have one: "heap d1 = heap d @ [\<lparr>Check = c, healthy = False, msg = ''[n/a]'', pos = len_items d\<rparr>]"
    if i: "Investigate d c = (None, d1)"
  proof -
    have lt: "len_items d < 63"
      using i Investigate_None_iff[of d c] by simp
    show ?thesis
      using i Investigate_ok[OF lt, of c] by auto
  qed
  have kept: "pos (heap d2 ! a) = pos (heap d ! a) \<and>
      fmdom (items d) |\<subseteq>| fmdom (items d2) \<and> length (heap d) \<le> length (heap d2)"
    if "step d ev = Inr d2 \<and> a < length (heap d)"
    using that pos_step[of d ev d2 a] items_step[of d ev d2] by simp
  have reach: "map pos (heap e) = [0 ..< length (heap e)] \<and> distinct (map pos (heap e)) \<and>
      len_items e = length (heap e)"
    if "run NewDoctor evs = Inr e \<and> distinct (registered evs)"
  proof -
    have "dense e"
      using that dense_reachable by blast
    then have "map pos (heap e) = [0 ..< length (heap e)]" "len_items e = length (heap e)"
      by (simp_all add: dense_def)
    then show ?thesis
      by (metis distinct_upt)
  qed
  have seq: "fst (Investigate_all NewDoctor cs) = replicate (length cs) None \<and>
      map pos (heap (snd (Investigate_all NewDoctor cs))) = [0 ..< length cs] \<and>
      map Check (heap (snd (Investigate_all NewDoctor cs))) = cs \<and>
      distinct (map pos (heap (snd (Investigate_all NewDoctor cs)))) \<and>
      len_items (snd (Investigate_all NewDoctor cs)) = length cs"
    if h: "distinct (map Name cs) \<and> length cs \<le> 63"
  proof -
    have dist: "distinct (map Name cs)" using h by simp
    have "\<forall>c \<in> set cs. Name c |\<notin>| fmdom (items NewDoctor)"
      by (simp add: NewDoctor_def)
    moreover have "len_items NewDoctor + length cs \<le> 63"
      using h by simp
    ultimately have
      "fst (Investigate_all NewDoctor cs) = replicate (length cs) None \<and>
       map pos (heap (snd (Investigate_all NewDoctor cs))) =
         map pos (heap NewDoctor) @ [len_items NewDoctor ..< len_items NewDoctor + length cs] \<and>
       map Check (heap (snd (Investigate_all NewDoctor cs))) = map Check (heap NewDoctor) @ cs \<and>
       len_items (snd (Investigate_all NewDoctor cs)) = len_items NewDoctor + length cs \<and>
       length (runners (snd (Investigate_all NewDoctor cs))) =
         length (runners NewDoctor) + length cs"
      by (rule Investigate_all_distinct[OF dist])
    moreover have "heap NewDoctor = []"
      by (simp add: NewDoctor_def)
    ultimately show ?thesis
      by simp
  qed
  show ?thesis
    using one kept reach seq by blast
qed

text \<open>
  The theorem at the registration of \<open>cache\<close> after \<open>db\<close>, at the run that goes on
  with a cycle of \<open>db\<close>, and at three registrations. And against the claim as it was
  stated (every registration gets the count of registrations, and positions are unique):
  two registrations under the name \<open>db\<close> and one of \<open>cache\<close> all succeed, get the
  positions 0, 1 and 1, and leave a registry of two entries.
\<close>

theorem positions_dense_unique_witness:
  "Investigate one_check (probe ''cache'' (always (Returns None))) = (None, two_checks) \<and>
   heap two_checks =
     heap one_check @
     [\<lparr>Check = probe ''cache'' (always (Returns None)), healthy = False, msg = ''[n/a]'',
        pos = len_items one_check\<rparr>] \<and>
   step one_check (Register (probe ''cache'' (always (Returns None)))) = Inr two_checks \<and>
   0 < length (heap one_check) \<and>
   pos (heap two_checks ! 0) = pos (heap one_check ! 0) \<and>
   run NewDoctor
     [Register (probe ''db'' (always (Returns None))),
      Register (probe ''cache'' (always (Returns None))), CycleStart 0, HandlerDone 0 0] =
     Inr db_succeeded \<and>
   distinct (registered
     [Register (probe ''db'' (always (Returns None))),
      Register (probe ''cache'' (always (Returns None))), CycleStart 0, HandlerDone 0 0]) \<and>
   map pos (heap db_succeeded) = [0 ..< length (heap db_succeeded)] \<and>
   len_items db_succeeded = length (heap db_succeeded) \<and>
   distinct (map Name [numbered 0, numbered 1, numbered 2]) \<and>
   length [numbered 0, numbered 1, numbered 2] \<le> 63 \<and>
   fst (Investigate_all NewDoctor [numbered 0, numbered 1, numbered 2]) = [None, None, None] \<and>
   map pos (heap (snd (Investigate_all NewDoctor [numbered 0, numbered 1, numbered 2]))) = [0, 1, 2] \<and>
   len_items (snd (Investigate_all NewDoctor [numbered 0, numbered 1, numbered 2])) = 3"
proof -
  have i: "Investigate one_check (probe ''cache'' (always (Returns None))) = (None, two_checks)"
    by (simp add: two_checks_def Investigate_def Let_def len_items_def one_check_eq
        fcard_fempty fcard_finsert_if)
  have s: "step one_check (Register (probe ''cache'' (always (Returns None)))) = Inr two_checks"
    by (simp add: two_checks_def)
  have l: "0 < length (heap one_check)"
    by (simp add: one_check_eq)
  have r: "run NewDoctor
     [Register (probe ''db'' (always (Returns None))),
      Register (probe ''cache'' (always (Returns None))), CycleStart 0, HandlerDone 0 0] =
     Inr db_succeeded"
    using run_db_succeeded by (simp add: two_checks_def one_check_def)
  have d: "distinct (registered
     [Register (probe ''db'' (always (Returns None))),
      Register (probe ''cache'' (always (Returns None))), CycleStart 0, HandlerDone 0 0])"
    by simp
  have h: "distinct (map Name [numbered 0, numbered 1, numbered 2])"
    "length [numbered 0, numbered 1, numbered 2] \<le> 63"
    by (simp_all add: numbered_def eval_nat_numeral)
  have u: "[0..<3] = [0, 1, 2]" "replicate 3 None = [None, None, None]"
    "length [numbered 0, numbered 1, numbered 2] = 3"
    by (simp_all add: upt_rec eval_nat_numeral)
  have t: "(3::nat) \<le> 63"
    by simp
  note th = positions_dense_unique[of one_check "probe ''cache'' (always (Returns None))" two_checks
      "Register (probe ''cache'' (always (Returns None)))" two_checks 0
      "[Register (probe ''db'' (always (Returns None))),
        Register (probe ''cache'' (always (Returns None))), CycleStart 0, HandlerDone 0 0]"
      db_succeeded "[numbered 0, numbered 1, numbered 2]"]
  have A: "heap two_checks =
     heap one_check @
     [\<lparr>Check = probe ''cache'' (always (Returns None)), healthy = False, msg = ''[n/a]'',
        pos = len_items one_check\<rparr>]"
    using th i by blast
  have B: "pos (heap two_checks ! 0) = pos (heap one_check ! 0)"
    using th s l by blast
  have C: "map pos (heap db_succeeded) = [0 ..< length (heap db_succeeded)]"
    "len_items db_succeeded = length (heap db_succeeded)"
    using th r d by blast+
  have D: "fst (Investigate_all NewDoctor [numbered 0, numbered 1, numbered 2]) = [None, None, None]"
    "map pos (heap (snd (Investigate_all NewDoctor [numbered 0, numbered 1, numbered 2]))) = [0, 1, 2]"
    "len_items (snd (Investigate_all NewDoctor [numbered 0, numbered 1, numbered 2])) = 3"
    using th h unfolding u by blast+
  show ?thesis
    by (intro conjI i A s l B r d C h D)
qed

theorem duplicate_positions_counterexample:
  "fst (Investigate_all NewDoctor db_db_cache) = [None, None, None] \<and>
   map Name db_db_cache = [''db'', ''db'', ''cache''] \<and>
   map pos (heap (snd (Investigate_all NewDoctor db_db_cache))) = [0, 1, 1] \<and>
   len_items (snd (Investigate_all NewDoctor db_db_cache)) = 2"
  by (simp add: db_db_cache_def NewDoctor_def Investigate_def Let_def len_items_def
      fcard_fempty fcard_finsert_if)

text \<open>
  C9, as amended: a panic of the handler is not caught. The handler goroutine has no
  \<^verbatim>\<open>recover\<close>, so the panic ends the process, and with it every Runner; the invocation
  records no result, and no later event takes place.
\<close>

theorem handler_panic_ends_process:
  assumes "a < length (runners d)" and "k \<in> set (pending (runners d ! a))"
    and "Handler (Check (heap d ! a)) k = Panics v"
  shows "step d (HandlerDone a k) = Inl (Panic v) \<and>
         run d (HandlerDone a k # es) = Inl (Panic v)"
  using assms by (simp add: handler_goroutine_def Let_def)

text \<open>
  The theorem at the state \<open>panic_waiting\<close>. And against the claim as it was stated (the
  panic becomes a failing result and the Runner goes on): the run of a Doctor whose single
  check panics in its first cycle ends in the panic.
\<close>

theorem handler_panic_ends_process_witness:
  "0 < length (runners panic_waiting) \<and> 0 \<in> set (pending (runners panic_waiting ! 0)) \<and>
   Handler (Check (heap panic_waiting ! 0)) 0 = Panics ''nil map'' \<and>
   step panic_waiting (HandlerDone 0 0) = Inl (Panic ''nil map'') \<and>
   run panic_waiting [HandlerDone 0 0, IntervalElapsed 0, CycleStart 0] = Inl (Panic ''nil map'')"
proof -
  have h: "0 < length (runners panic_waiting)" "0 \<in> set (pending (runners panic_waiting ! 0))"
    "Handler (Check (heap panic_waiting ! 0)) 0 = Panics ''nil map''"
    by (simp_all add: panic_waiting_eq always_def)
  show ?thesis
    using handler_panic_ends_process[OF h, of "[IntervalElapsed 0, CycleStart 0]"] h
    by (simp only: simp_thms)
qed

theorem handler_panic_counterexample:
  "run NewDoctor [Register (probe ''db'' (always (Panics ''nil map''))), CycleStart 0, HandlerDone 0 0] =
     Inl (Panic ''nil map'')"
  by (simp add: NewDoctor_def Investigate_def Let_def len_items_def fcard_fempty
      spawned_def update_def set_runner_def handler_goroutine_def always_def)



end
